theory Spec2Isabelle
  imports Main "HOL-Library.AList"
begin

section \<open>Characters\<close>

text \<open>
  The program works on Python \<open>str\<close> values.  A character is modelled by a HOL \<open>char\<close>,
  read as the code point U+0000 .. U+00FF; the classes below are the ones Python's \<open>re\<close>
  module and \<open>str.strip\<close> use on that range.
\<close>

definition code :: "char \<Rightarrow> nat" where
  "code c = of_char c"

text \<open>\<open>\s\<close> and the characters removed by \<open>str.strip()\<close>.\<close>

definition is_space :: "char \<Rightarrow> bool" where
  "is_space c =
     (let n = code c
      in (9 \<le> n \<and> n \<le> 13) \<or> (28 \<le> n \<and> n \<le> 32) \<or> n = 133 \<or> n = 160)"

text \<open>\<open>\w\<close>: alphanumeric characters and the underscore.\<close>

definition is_word :: "char \<Rightarrow> bool" where
  "is_word c =
     (let n = code c
      in (48 \<le> n \<and> n \<le> 57) \<or> (65 \<le> n \<and> n \<le> 90) \<or> n = 95 \<or> (97 \<le> n \<and> n \<le> 122)
         \<or> n = 170 \<or> n = 178 \<or> n = 179 \<or> n = 181 \<or> n = 185 \<or> n = 186
         \<or> (188 \<le> n \<and> n \<le> 190) \<or> (192 \<le> n \<and> n \<le> 214) \<or> (216 \<le> n \<and> n \<le> 246)
         \<or> 248 \<le> n)"

text \<open>The classes \<open>[A-Z]\<close> and \<open>[a-z]\<close>.\<close>

definition is_upper_AZ :: "char \<Rightarrow> bool" where
  "is_upper_AZ c = (65 \<le> code c \<and> code c \<le> 90)"

definition is_lower_az :: "char \<Rightarrow> bool" where
  "is_lower_az c = (97 \<le> code c \<and> code c \<le> 122)"

text \<open>The sentence terminators \<open>[.!?]\<close>.\<close>

definition is_terminal :: "char \<Rightarrow> bool" where
  "is_terminal c = (c = CHR ''.'' \<or> c = CHR ''!'' \<or> c = CHR ''?'')"

text \<open>
  Case folding under \<open>re.IGNORECASE\<close>: two characters are equal ignoring case when their
  lower-case code points agree.
\<close>

definition lower_code :: "char \<Rightarrow> nat" where
  "lower_code c =
     (let n = code c
      in if (65 \<le> n \<and> n \<le> 90) \<or> (192 \<le> n \<and> n \<le> 222 \<and> n \<noteq> 215) then n + 32 else n)"

definition strip :: "string \<Rightarrow> string" where
  "strip s = rev (dropWhile is_space (rev (dropWhile is_space s)))"


section \<open>Sentence segmentation\<close>

text \<open>
  Line 72 of \<open>SentenceReader.py\<close>:
  \<open>re.split(r'(?<!\w\.\w.)(?<![A-Z][a-z]\.)(?<=[.!?])\s+', text)\<close>.
  The three look-behinds are tests on the characters before position \<open>p\<close>; \<open>.\<close> is any
  character but the newline.
\<close>

definition abbrev_dotted :: "string \<Rightarrow> nat \<Rightarrow> bool" where
  "abbrev_dotted text p =
     (4 \<le> p \<and> is_word (text ! (p - 4)) \<and> text ! (p - 3) = CHR ''.''
        \<and> is_word (text ! (p - 2)) \<and> text ! (p - 1) \<noteq> CHR 0x0A)"

definition abbrev_title :: "string \<Rightarrow> nat \<Rightarrow> bool" where
  "abbrev_title text p =
     (3 \<le> p \<and> is_upper_AZ (text ! (p - 3)) \<and> is_lower_az (text ! (p - 2))
        \<and> text ! (p - 1) = CHR ''.'')"

text \<open>The pattern matches at \<open>p\<close>: a separator starts there.\<close>

definition sep_at :: "string \<Rightarrow> nat \<Rightarrow> bool" where
  "sep_at text p =
     (p < length text \<and> 1 \<le> p \<and> \<not> abbrev_dotted text p \<and> \<not> abbrev_title text p
        \<and> is_terminal (text ! (p - 1)) \<and> is_space (text ! p))"

text \<open>
  \<open>re.split\<close> scans the text from the left; \<open>start\<close> is the start of the current piece
  and \<open>p\<close> the position under test.  A match takes the whole run of white space.
\<close>

function split_from :: "string \<Rightarrow> nat \<Rightarrow> nat \<Rightarrow> string list" where
  "split_from text start p =
     (if length text \<le> p then [drop start text]
      else if sep_at text p
        then take (p - start) (drop start text)
             # split_from text (p + length (takeWhile is_space (drop p text)))
                 (p + length (takeWhile is_space (drop p text)))
        else split_from text start (Suc p))"
  by pat_completeness auto

lemma space_run_pos:
  "sep_at text p \<Longrightarrow> 0 < length (takeWhile is_space (drop p text))"
  by (cases "drop p text") (auto simp: sep_at_def hd_drop_conv_nth dest!: arg_cong [where f = hd])

termination split_from
proof (relation "measure (\<lambda>(t, s, p). length t - p)")
  show "wf (measure (\<lambda>(t, s, p). length t - p))" by simp
next
  fix t :: string and s p :: nat
  assume a: "\<not> length t \<le> p" "sep_at t p"
  define n where "n = length (takeWhile is_space (drop p t))"
  have "0 < n" unfolding n_def by (rule space_run_pos [OF a(2)])
  with a(1) have "length t - (p + n) < length t - p" by arith
  then show "((t, p + length (takeWhile is_space (drop p t)),
          p + length (takeWhile is_space (drop p t))), t, s, p)
        \<in> measure (\<lambda>(t, s, p). length t - p)"
    unfolding n_def by simp
next
  fix t :: string and s p :: nat
  assume "\<not> length t \<le> p"
  then show "((t, s, Suc p), t, s, p) \<in> measure (\<lambda>(t, s, p). length t - p)"
    by simp
qed

declare split_from.simps [simp del]

definition re_split_sentences :: "string \<Rightarrow> string list" where
  "re_split_sentences text = split_from text 0 0"


section \<open>Keyword patterns\<close>

text \<open>
  Lines 77 and 79: the pattern is \<open>rf"\b{re.escape(keyword)}\b"\<close> and it is searched in
  every sentence with \<open>re.IGNORECASE\<close>.  The model has \<open>re.escape\<close>, the pattern text,
  a parser for the fragment of the pattern language such a text can use, and the matcher of
  the parsed pattern.
\<close>

definition backslash :: char where
  "backslash = CHR 0x5C"

text \<open>The characters \<open>re.escape\<close> puts a backslash before (Python 3.7 and later).\<close>

definition re_special :: "char \<Rightarrow> bool" where
  "re_special c =
     (let n = code c
      in (9 \<le> n \<and> n \<le> 13) \<or> n = 32 \<or> n = 35 \<or> n = 36 \<or> n = 38 \<or> (40 \<le> n \<and> n \<le> 43)
         \<or> n = 45 \<or> n = 46 \<or> n = 63 \<or> (91 \<le> n \<and> n \<le> 94) \<or> (123 \<le> n \<and> n \<le> 126))"

fun re_escape :: "string \<Rightarrow> string" where
  "re_escape [] = []"
| "re_escape (c # cs) =
     (if re_special c then backslash # c # re_escape cs else c # re_escape cs)"

definition keyword_pattern :: "string \<Rightarrow> string" where
  "keyword_pattern keyword =
     [backslash, CHR ''b''] @ re_escape keyword @ [backslash, CHR ''b'']"

text \<open>
  A parsed pattern is a sequence of atoms: a literal character or the word boundary
  \<open>\b\<close>.  The characters with a meaning of their own in a pattern are
  \<open>. ^ $ * + ? { } [ ] \ | ( )\<close>; a backslash before a character that is no ASCII letter or
  digit makes it a literal.  \<open>None\<close>: the pattern is outside this fragment, or no pattern.
\<close>

datatype atom = Lit char | WordB

definition re_meta :: "char \<Rightarrow> bool" where
  "re_meta c =
     (let n = code c
      in n = 36 \<or> (40 \<le> n \<and> n \<le> 43) \<or> n = 46 \<or> n = 63 \<or> (91 \<le> n \<and> n \<le> 94)
         \<or> (123 \<le> n \<and> n \<le> 125))"

definition ascii_alnum :: "char \<Rightarrow> bool" where
  "ascii_alnum c =
     (let n = code c
      in (48 \<le> n \<and> n \<le> 57) \<or> (65 \<le> n \<and> n \<le> 90) \<or> (97 \<le> n \<and> n \<le> 122))"

fun re_parse :: "string \<Rightarrow> atom list option" where
  "re_parse [] = Some []"
| "re_parse [c] = (if re_meta c then None else Some [Lit c])"
| "re_parse (c # d # cs) =
     (if c = backslash then
        (if d = CHR ''b'' then map_option ((#) WordB) (re_parse cs)
         else if ascii_alnum d then None
         else map_option ((#) (Lit d)) (re_parse cs))
      else if re_meta c then None
      else map_option ((#) (Lit c)) (re_parse (d # cs)))"

text \<open>
  \<open>\b\<close> at position \<open>i\<close> of \<open>s\<close>: exactly one of the characters before and after is a
  word character, where the two ends of the string count as no word character.
\<close>

definition word_boundary :: "string \<Rightarrow> nat \<Rightarrow> bool" where
  "word_boundary s i =
     ((0 < i \<and> i \<le> length s \<and> is_word (s ! (i - 1))) \<noteq> (i < length s \<and> is_word (s ! i)))"

text \<open>The atoms match \<open>s\<close> from position \<open>i\<close> on, ignoring case.\<close>

fun match_at :: "atom list \<Rightarrow> string \<Rightarrow> nat \<Rightarrow> bool" where
  "match_at [] s i = True"
| "match_at (WordB # as) s i = (word_boundary s i \<and> match_at as s i)"
| "match_at (Lit c # as) s i =
     (i < length s \<and> lower_code (s ! i) = lower_code c \<and> match_at as s (Suc i))"

definition search_atoms :: "atom list \<Rightarrow> string \<Rightarrow> bool" where
  "search_atoms as s = list_ex (match_at as s) [0..<Suc (length s)]"

text \<open>
  \<open>re.search(pattern, s, re.IGNORECASE)\<close>, read as a truth value: whether there is a match.
\<close>

definition re_search :: "string \<Rightarrow> string \<Rightarrow> bool option" where
  "re_search pattern s = map_option (\<lambda>as. search_atoms as s) (re_parse pattern)"


section \<open>The keyword matcher\<close>

text \<open>
  A Python \<open>set\<close> of strings is a duplicate-free list in insertion order.  \<open>list(s)\<close>
  gives the elements in an order that the string hash decides; the hash is the parameter
  \<open>h\<close>, and the order is the stable sort by it.  A \<open>dict\<close> is an association list in
  insertion order, updated by \<^const>\<open>AList.update\<close>.
\<close>

definition set_add :: "'a \<Rightarrow> 'a list \<Rightarrow> 'a list" where
  "set_add x xs = (if x \<in> set xs then xs else xs @ [x])"

definition list_of_set :: "('a \<Rightarrow> nat) \<Rightarrow> 'a list \<Rightarrow> 'a list" where
  "list_of_set h xs = sort_key h xs"

text \<open>Lines 78 to 82, the loop over the sentences for one pattern.\<close>

fun sentence_loop ::
  "string \<Rightarrow> string list \<Rightarrow> nat \<times> string list \<Rightarrow> (nat \<times> string list) option" where
  "sentence_loop pat [] (count, found) = Some (count, found)"
| "sentence_loop pat (sentence # rest) (count, found) =
     (case re_search pat sentence of
        None \<Rightarrow> None
      | Some m \<Rightarrow>
          sentence_loop pat rest
            (if m then (count + 1, set_add (strip sentence) found) else (count, found)))"

text \<open>Lines 74 to 84, the loop over the keywords.\<close>

fun keyword_loop ::
  "string list \<Rightarrow> string list \<Rightarrow> (string \<times> nat) list \<times> string list
     \<Rightarrow> ((string \<times> nat) list \<times> string list) option" where
  "keyword_loop sentences [] (occurrences, found) = Some (occurrences, found)"
| "keyword_loop sentences (keyword # rest) (occurrences, found) =
     (case sentence_loop (keyword_pattern keyword) sentences (0, found) of
        None \<Rightarrow> None
      | Some (count, found') \<Rightarrow>
          keyword_loop sentences rest
            (if 0 < count then AList.update keyword count occurrences else occurrences,
             found'))"

definition analyze_text_for_keywords ::
  "(string \<Rightarrow> nat) \<Rightarrow> string \<Rightarrow> string list
     \<Rightarrow> ((string \<times> nat) list \<times> string list) option" where
  "analyze_text_for_keywords h text keywords =
     (case keyword_loop (re_split_sentences text) keywords ([], []) of
        None \<Rightarrow> None
      | Some (occurrences, found) \<Rightarrow> Some (occurrences, list_of_set h found))"


section \<open>Reading a document\<close>

text \<open>
  What the program does to the world is a trace of events, the newest last: a request
  (\<open>urllib.request.urlopen\<close> and \<open>response.read()\<close>), the opening of the bytes as a
  document (\<open>fitz.open\<close>), a pause (\<open>time.sleep\<close>) and a line appended to the error log
  (\<open>log_error\<close>: the URL and the message; the time stamp is left out).  Console output is
  not modelled, and the error log is taken to be writable.
\<close>

datatype event =
    Urlopen string
  | FitzOpen string
  | Sleep nat
  | LogError string string

text \<open>
  The world the program runs in.  \<open>urlopen\<close> answers a request, depending on
  everything that happened before: the text of the exception raised, or the bytes read.
  \<open>fitz_open\<close> opens bytes as a document: the exception raised, or the pages, each of
  which gives its text or raises in \<open>get_text\<close>.  \<open>url_basename\<close> is
  \<open>unquote(os.path.basename(urlparse(url).path))\<close>, \<open>None\<close> when that raises.
  \<open>str_hash\<close> is the hash of strings, which orders the elements of a set.
\<close>

record env =
  urlopen :: "event list \<Rightarrow> string \<Rightarrow> string + string"
  fitz_open :: "string \<Rightarrow> string + (string + string) list"
  url_basename :: "string \<Rightarrow> string option"
  str_hash :: "string \<Rightarrow> nat"

definition MAX_RETRIES :: nat where
  "MAX_RETRIES = 2"

definition RETRY_DELAY :: nat where
  "RETRY_DELAY = 5"

text \<open>Decimal digits of a number, for the text of the log message.\<close>

fun show_nat :: "nat \<Rightarrow> string" where
  "show_nat n =
     (if n < 10 then [''0123456789'' ! n]
      else show_nat (n div 10) @ [''0123456789'' ! (n mod 10)])"

declare show_nat.simps [simp del]

definition failure_message :: "string \<Rightarrow> string" where
  "failure_message e =
     ''Failed to read PDF after '' @ show_nat MAX_RETRIES @ '' attempts: '' @ e"

text \<open>Lines 55 to 57: the texts of the pages, appended in page order.\<close>

fun get_text_pages :: "string \<Rightarrow> (string + string) list \<Rightarrow> string + string" where
  "get_text_pages text [] = Inr text"
| "get_text_pages text (Inl e # pages) = Inl e"
| "get_text_pages text (Inr t # pages) = get_text_pages (text @ t) pages"

text \<open>Lines 54 to 58: the extraction of the text from the bytes.\<close>

definition extract_text :: "env \<Rightarrow> string \<Rightarrow> string + string" where
  "extract_text env pdf_content =
     (case fitz_open env pdf_content of
        Inl e \<Rightarrow> Inl e
      | Inr pages \<Rightarrow> get_text_pages [] pages)"

text \<open>
  Lines 52 to 58, the body of the \<open>try\<close>: one request and, when it gave bytes, one
  extraction.  The result is the exception caught by line 59, or the text.
\<close>

definition read_attempt :: "env \<Rightarrow> string \<Rightarrow> event list \<Rightarrow> (string + string) \<times> event list" where
  "read_attempt env url tr =
     (case urlopen env tr url of
        Inl e \<Rightarrow> (Inl e, tr @ [Urlopen url])
      | Inr pdf_content \<Rightarrow>
          (extract_text env pdf_content, tr @ [Urlopen url, FitzOpen pdf_content]))"

text \<open>Lines 50 to 66: the loop over \<open>range(MAX_RETRIES)\<close>.\<close>

fun read_pdf_loop ::
  "env \<Rightarrow> string \<Rightarrow> nat list \<Rightarrow> event list \<Rightarrow> string option \<times> event list" where
  "read_pdf_loop env url [] tr = (None, tr)"
| "read_pdf_loop env url (attempt # rest) tr =
     (case read_attempt env url tr of
        (Inr text, tr') \<Rightarrow> (Some text, tr')
      | (Inl e, tr') \<Rightarrow>
          if attempt < MAX_RETRIES - 1
          then read_pdf_loop env url rest (tr' @ [Sleep RETRY_DELAY])
          else (None, tr' @ [LogError url (failure_message e)]))"

definition read_pdf_content :: "env \<Rightarrow> string \<Rightarrow> event list \<Rightarrow> string option \<times> event list" where
  "read_pdf_content env url tr = read_pdf_loop env url [0..<MAX_RETRIES] tr"


section \<open>The pipeline\<close>

text \<open>
  A row of the table is a \<open>dict\<close>: the keys \<open>URL\<close> and \<open>Name\<close>, then the document's
  counts (a keyword that is spelled like one of the two replaces its value), or the
  sentinel entry.
\<close>

datatype cell = Str string | Num nat

type_synonym row = "(string \<times> cell) list"

definition make_row :: "string \<Rightarrow> string \<Rightarrow> (string \<times> nat) list \<Rightarrow> row" where
  "make_row url display_name occurrences =
     (if occurrences \<noteq> []
      then fold (\<lambda>(k, n). AList.update k (Num n)) occurrences
             [(''URL'', Str url), (''Name'', Str display_name)]
      else [(''URL'', Str url), (''Name'', Str display_name),
            (''No Keywords Found'', Str ''No keywords found in this file.'')])"

definition extract_filename :: "env \<Rightarrow> string \<Rightarrow> string" where
  "extract_filename env url =
     (case url_basename env url of
        None \<Rightarrow> ''Unknown''
      | Some filename \<Rightarrow> if filename = [] then ''Unknown'' else filename)"

text \<open>
  The state of \<open>process_filings\<close>: its two local variables and the trace.  An exception
  that nothing catches ends the run: the URL file cannot be opened, or a pattern is
  refused.
\<close>

datatype error = UrlFileError | PatternError

record pstate =
  results :: "row list"
  all_extracted_sentences :: "string list"
  trace :: "event list"

text \<open>Lines 121 to 148, the body of the loop for one URL.\<close>

definition process_url ::
  "env \<Rightarrow> string list \<Rightarrow> string list option \<Rightarrow> nat \<Rightarrow> string \<Rightarrow> pstate \<Rightarrow> error + pstate" where
  "process_url env keywords company_names index url st =
     (let filename = extract_filename env url;
          display_name =
            (case company_names of
               None \<Rightarrow> filename
             | Some names \<Rightarrow>
                 if names \<noteq> [] \<and> index < length names then names ! index else filename);
          (text, tr) = read_pdf_content env url (trace st)
      in case text of
           None \<Rightarrow> Inr (st\<lparr>trace := tr @ [Sleep 1]\<rparr>)
         | Some t \<Rightarrow>
             if t = [] then Inr (st\<lparr>trace := tr @ [Sleep 1]\<rparr>)
             else
               (case analyze_text_for_keywords (str_hash env) t keywords of
                  None \<Rightarrow> Inl PatternError
                | Some (occurrences, pdf_sentences) \<Rightarrow>
                    Inr \<lparr>results = results st @ [make_row url display_name occurrences],
                         all_extracted_sentences =
                           fold set_add pdf_sentences (all_extracted_sentences st),
                         trace = tr @ [Sleep 1]\<rparr>))"

fun process_loop ::
  "env \<Rightarrow> string list \<Rightarrow> string list option \<Rightarrow> (nat \<times> string) list \<Rightarrow> pstate
     \<Rightarrow> error + pstate" where
  "process_loop env keywords company_names [] st = Inr st"
| "process_loop env keywords company_names ((index, url) # rest) st =
     (case process_url env keywords company_names index url st of
        Inl e \<Rightarrow> Inl e
      | Inr st' \<Rightarrow> process_loop env keywords company_names rest st')"

text \<open>Line 111: the lines of the URL file, stripped, the empty ones left out.\<close>

definition read_urls :: "string list \<Rightarrow> string list" where
  "read_urls file_lines = filter (\<lambda>l. l \<noteq> []) (map strip file_lines)"

text \<open>
  Lines 106 to 150.  \<open>url_file\<close> is the content of the file, a list of lines, or \<open>None\<close>
  when it cannot be opened.  The result is the table, the list made of the run-wide
  sentence set, and the trace.
\<close>

definition process_filings ::
  "env \<Rightarrow> string list option \<Rightarrow> string list \<Rightarrow> string list option \<Rightarrow> event list
     \<Rightarrow> error + (row list \<times> string list \<times> event list)" where
  "process_filings env url_file keywords company_names tr =
     (case url_file of
        None \<Rightarrow> Inl UrlFileError
      | Some file_lines \<Rightarrow>
          (case process_loop env keywords company_names
                  (enumerate 0 (read_urls file_lines))
                  \<lparr>results = [], all_extracted_sentences = [], trace = tr\<rparr> of
             Inl e \<Rightarrow> Inl e
           | Inr st \<Rightarrow>
               Inr (results st, list_of_set (str_hash env) (all_extracted_sentences st),
                    trace st)))"


section \<open>Notions of the specification\<close>

text \<open>
  The keyword text occurs in the sentence as a whole word, ignoring case: at some position
  there is a word boundary, the characters from there on are those of the keyword up to
  case, and there is a word boundary again after them.  This follows the words of the
  specification; the code's matcher is \<^const>\<open>re_search\<close>.
\<close>

definition occurs_whole_word :: "string \<Rightarrow> string \<Rightarrow> bool" where
  "occurs_whole_word keyword s =
     list_ex (\<lambda>i. word_boundary s i \<and> i + length keyword \<le> length s
                \<and> map lower_code (take (length keyword) (drop i s)) = map lower_code keyword
                \<and> word_boundary s (i + length keyword))
       [0..<Suc (length s)]"


text \<open>
  The sentences of a list that a keyword matches, and the number of sentences of a text
  that it matches.
\<close>

definition hits :: "string \<Rightarrow> string list \<Rightarrow> string list" where
  "hits keyword sentences =
     filter (\<lambda>s. re_search (keyword_pattern keyword) s = Some True) sentences"

definition matching_sentences :: "string \<Rightarrow> string \<Rightarrow> nat" where
  "matching_sentences text keyword = length (hits keyword (re_split_sentences text))"

text \<open>
  What one round of the loop over the keywords does to the counts and to the set of
  matched sentences, written without the loop over the sentences.
\<close>

definition count_step :: "string list \<Rightarrow> string \<Rightarrow> (string \<times> nat) list \<Rightarrow> (string \<times> nat) list" where
  "count_step sentences keyword occurrences =
     (if 0 < length (hits keyword sentences)
      then AList.update keyword (length (hits keyword sentences)) occurrences
      else occurrences)"

definition found_step :: "string list \<Rightarrow> string \<Rightarrow> string list \<Rightarrow> string list" where
  "found_step sentences keyword found = fold set_add (map strip (hits keyword sentences)) found"


text \<open>
  The places where the segmenter splits: the positions of the text that follow a
  terminator, hold white space, and are not behind one of the two abbreviation shapes.
  A split removes the run of white space from such a position to \<open>run_end\<close>, and the
  sentences are the slices of the text between the runs.
\<close>

definition split_points :: "string \<Rightarrow> nat list" where
  "split_points text = filter (sep_at text) [0..<length text]"

definition run_end :: "string \<Rightarrow> nat \<Rightarrow> nat" where
  "run_end text p = p + length (takeWhile is_space (drop p text))"

definition slice :: "string \<Rightarrow> nat \<Rightarrow> nat \<Rightarrow> string" where
  "slice text a b = take (b - a) (drop a text)"

definition pieces :: "string \<Rightarrow> string list" where
  "pieces text =
     map2 (slice text) (0 # map (run_end text) (split_points text))
       (split_points text @ [length text])"


text \<open>The kinds of events, to count requests, extractions and log entries in a trace.\<close>

fun is_request :: "event \<Rightarrow> bool" where
  "is_request (Urlopen u) = True"
| "is_request e = False"

fun is_extraction :: "event \<Rightarrow> bool" where
  "is_extraction (FitzOpen c) = True"
| "is_extraction e = False"

fun is_log_entry :: "event \<Rightarrow> bool" where
  "is_log_entry (LogError u m) = True"
| "is_log_entry e = False"

text \<open>
  A world for the examples: the request for \<open>bad.pdf\<close> always fails, the bytes of
  \<open>corrupt.pdf\<close> are no document, \<open>scan.pdf\<close> is a document of two pages without
  text, and every other URL gives the same two pages of text.
\<close>

definition example_env :: env where
  "example_env =
     \<lparr>urlopen = (\<lambda>tr u. if u = ''http://x/bad.pdf'' then Inl ''timed out'' else Inr u),
      fitz_open = (\<lambda>c. if c = ''http://x/corrupt.pdf'' then Inl ''no PDF''
                        else if c = ''http://x/scan.pdf'' then Inr [Inr '''', Inr '''']
                        else Inr [Inr ''The cat sat. '', Inr ''A dog ran.'']),
      url_basename = (\<lambda>u. Some (drop 9 u)),
      str_hash = length\<rparr>"


section \<open>Properties of the segmenter\<close>

lemma space_not_terminal: "is_space c \<Longrightarrow> \<not> is_terminal c"
  by (auto simp: is_space_def is_terminal_def code_def Let_def)

lemma space_run_spaces:
  assumes "p \<le> j" "j < p + length (takeWhile is_space (drop p t))"
  shows "is_space (t ! j)"
proof -
  let ?w = "takeWhile is_space (drop p t)"
  from assms have l: "j - p < length ?w" by simp
  then have "?w ! (j - p) \<in> set ?w" by (rule nth_mem)
  then have "is_space (?w ! (j - p))" by (rule set_takeWhileD [THEN conjunct2])
  moreover from l have "?w ! (j - p) = drop p t ! (j - p)" by (rule takeWhile_nth)
  moreover have "length ?w \<le> length (drop p t)" by (rule length_takeWhile_le)
  with l assms(1) have "drop p t ! (j - p) = t ! j" by simp
  ultimately show ?thesis by simp
qed

lemma space_run_bound: "p + length (takeWhile is_space (drop p t)) \<le> max p (length t)"
  using length_takeWhile_le [of is_space "drop p t"] by simp

lemma no_sep_in_run:
  assumes "p < j" "j < p + length (takeWhile is_space (drop p t))"
  shows "\<not> sep_at t j"
proof -
  from assms have "is_space (t ! (j - 1))" by (intro space_run_spaces [of p]) auto
  then show ?thesis by (simp add: sep_at_def space_not_terminal)
qed

lemma filter_sep_run:
  assumes "sep_at t p"
  shows "filter (sep_at t) [p..<length t]
         = p # filter (sep_at t) [p + length (takeWhile is_space (drop p t))..<length t]"
proof -
  let ?q = "p + length (takeWhile is_space (drop p t))"
  from assms have pl: "p < length t" by (simp add: sep_at_def)
  from space_run_pos [OF assms] have pq: "Suc p \<le> ?q" by arith
  from space_run_bound [of p t] pl have ql: "?q \<le> length t" by simp
  have "[Suc p..<?q + (length t - ?q)] = [Suc p..<?q] @ [?q..<?q + (length t - ?q)]"
    using pq by (rule upt_add_eq_append)
  with ql have "[Suc p..<length t] = [Suc p..<?q] @ [?q..<length t]" by simp
  with pl have "[p..<length t] = p # [Suc p..<?q] @ [?q..<length t]"
    by (simp add: upt_conv_Cons)
  moreover have "filter (sep_at t) [Suc p..<?q] = []"
    using no_sep_in_run [of p _ t] by (auto simp: filter_empty_conv)
  ultimately show ?thesis using assms by simp
qed

lemma length_split_from:
  "length (split_from t s p) = Suc (length (filter (sep_at t) [p..<length t]))"
proof (induction t s p rule: split_from.induct)
  case (1 t s p)
  show ?case
  proof (cases "length t \<le> p")
    case True
    then show ?thesis by (subst split_from.simps) simp
  next
    case False
    show ?thesis
    proof (cases "sep_at t p")
      case True
      with False 1(1) show ?thesis
        by (subst split_from.simps) (simp add: filter_sep_run)
    next
      case f: False
      from False have "[p..<length t] = p # [Suc p..<length t]" by (simp add: upt_conv_Cons)
      with False f 1(2) show ?thesis by (subst split_from.simps) simp
    qed
  qed
qed

lemma split_from_pieces:
  "split_from t s p =
     map2 (slice t) (s # map (run_end t) (filter (sep_at t) [p..<length t]))
       (filter (sep_at t) [p..<length t] @ [length t])"
proof (induction t s p rule: split_from.induct)
  case (1 t s p)
  show ?case
  proof (cases "length t \<le> p")
    case True
    then show ?thesis by (subst split_from.simps) (simp add: slice_def [abs_def])
  next
    case False
    show ?thesis
    proof (cases "sep_at t p")
      case True
      with False 1(1) show ?thesis
        by (subst split_from.simps) (simp add: filter_sep_run slice_def [abs_def] run_end_def [abs_def])
    next
      case f: False
      from False have "[p..<length t] = p # [Suc p..<length t]" by (simp add: upt_conv_Cons)
      with False f 1(2) show ?thesis by (subst split_from.simps) simp
    qed
  qed
qed


text \<open>
  C4, as the code has it.  The segmenter splits at every run of white space that follows
  \<open>.\<close>, \<open>!\<close> or \<open>?\<close>, unless the four characters before the run are a word
  character, a period, a word character and any character but a newline (\<open>U.S.\<close>), or
  the three characters before it are a capital letter, a small letter and a period
  (\<open>Mr.\<close>): the sentences are the slices between the runs at the split points, one more
  than there are split points.  \<open>Mr. Smith went home. He left.\<close> gives two sentences,
  a text with \<open>U.S.\<close> is not split behind it, and a single capital with a period, as in
  \<open>John A. Smith left.\<close>, does not keep the segmenter from splitting.
\<close>

theorem C4_split_at_terminal_space_unless_abbreviation:
  "re_split_sentences text = pieces text
   \<and> length (re_split_sentences text) = Suc (length (split_points text))
   \<and> (p \<in> set (split_points text) \<longleftrightarrow>
        0 < p \<and> p < length text \<and> is_terminal (text ! (p - 1)) \<and> is_space (text ! p)
        \<and> \<not> (4 \<le> p \<and> is_word (text ! (p - 4)) \<and> text ! (p - 3) = CHR ''.''
               \<and> is_word (text ! (p - 2)) \<and> text ! (p - 1) \<noteq> CHR 0x0A)
        \<and> \<not> (3 \<le> p \<and> is_upper_AZ (text ! (p - 3)) \<and> is_lower_az (text ! (p - 2))
               \<and> text ! (p - 1) = CHR ''.''))
   \<and> re_split_sentences ''Mr. Smith went home. He left.''
       = [''Mr. Smith went home.'', ''He left.'']
   \<and> re_split_sentences ''We left the U.S. We went home.''
       = [''We left the U.S. We went home.'']
   \<and> re_split_sentences ''John A. Smith left.'' = [''John A.'', ''Smith left.'']"
proof (intro conjI)
  show "re_split_sentences text = pieces text"
    by (simp add: re_split_sentences_def split_points_def pieces_def split_from_pieces)
  show "length (re_split_sentences text) = Suc (length (split_points text))"
    by (simp add: re_split_sentences_def split_points_def length_split_from)
  show "p \<in> set (split_points text) \<longleftrightarrow>
        0 < p \<and> p < length text \<and> is_terminal (text ! (p - 1)) \<and> is_space (text ! p)
        \<and> \<not> (4 \<le> p \<and> is_word (text ! (p - 4)) \<and> text ! (p - 3) = CHR ''.''
               \<and> is_word (text ! (p - 2)) \<and> text ! (p - 1) \<noteq> CHR 0x0A)
        \<and> \<not> (3 \<le> p \<and> is_upper_AZ (text ! (p - 3)) \<and> is_lower_az (text ! (p - 2))
               \<and> text ! (p - 1) = CHR ''.'')"
    unfolding split_points_def sep_at_def abbrev_dotted_def abbrev_title_def by auto
  show "re_split_sentences ''Mr. Smith went home. He left.''
          = [''Mr. Smith went home.'', ''He left.'']"
    by code_simp
  show "re_split_sentences ''We left the U.S. We went home.''
          = [''We left the U.S. We went home.'']"
    by code_simp
  show "re_split_sentences ''John A. Smith left.'' = [''John A.'', ''Smith left.'']"
    by code_simp
qed

theorem C4_split_at_terminal_space_unless_abbreviation_witness:
  "re_split_sentences ''Is it?  Yes! Dr. No said so. End''
     = [''Is it?'', ''Yes!'', ''Dr. No said so.'', ''End'']
   \<and> split_points ''Is it?  Yes! Dr. No said so. End'' = [6, 12, 28]"
proof -
  have 1: "split_points ''Is it?  Yes! Dr. No said so. End'' = [6, 12, 28]" by code_simp
  have 2: "pieces ''Is it?  Yes! Dr. No said so. End''
             = [''Is it?'', ''Yes!'', ''Dr. No said so.'', ''End'']" by code_simp
  from C4_split_at_terminal_space_unless_abbreviation
         [of "''Is it?  Yes! Dr. No said so. End''"] 1 2
  show ?thesis by simp
qed


text \<open>
  C4 as stated fails: it names a capital letter with a period, as in \<open>A. Smith\<close>, as a
  shape that suppresses the split, and the segmenter splits \<open>John A. Smith left.\<close>
  behind \<open>A.\<close>
\<close>

theorem C4_single_capital_counterexample:
  "re_split_sentences ''John A. Smith left.'' = [''John A.'', ''Smith left.'']
   \<and> is_upper_AZ (''John A. Smith left.'' ! 5) \<and> ''John A. Smith left.'' ! 6 = CHR ''.''
   \<and> is_space (''John A. Smith left.'' ! 7)"
  by code_simp


section \<open>Properties of the keyword pattern\<close>

lemma code_inj: "code c = code d \<longleftrightarrow> c = d"
  by (simp add: code_def)

lemma code_backslash: "code backslash = 92"
  by (simp add: backslash_def code_def)

lemma code_b: "code (CHR ''b'') = 98"
  by (simp add: code_def)

lemma special_not_alnum: "re_special c \<Longrightarrow> \<not> ascii_alnum c"
  by (auto simp: re_special_def ascii_alnum_def Let_def)

lemma special_not_b: "re_special c \<Longrightarrow> c \<noteq> CHR ''b''"
  using code_b by (auto simp: re_special_def Let_def)

lemma meta_special: "re_meta c \<Longrightarrow> re_special c"
  by (auto simp: re_special_def re_meta_def Let_def)

lemma backslash_special: "re_special backslash"
  by (simp add: re_special_def code_backslash)

lemma re_parse_escape:
  "re_parse (re_escape kw @ [backslash, CHR ''b'']) = Some (map Lit kw @ [WordB])"
proof (induction kw)
  case Nil
  show ?case by simp
next
  case (Cons c cs)
  show ?case
  proof (cases "re_special c")
    case True
    then show ?thesis
      using Cons special_not_alnum [OF True] special_not_b [OF True] by simp
  next
    case False
    then have nb: "c \<noteq> backslash" using backslash_special by auto
    from False have nm: "\<not> re_meta c" using meta_special by auto
    obtain d ds where e: "re_escape cs @ [backslash, CHR ''b''] = d # ds"
      by (cases "re_escape cs @ [backslash, CHR ''b'']") auto
    have "re_parse (c # d # ds) = map_option ((#) (Lit c)) (re_parse (d # ds))"
      using nb nm by simp
    then show ?thesis using Cons False e by simp
  qed
qed

lemma re_parse_keyword_pattern:
  "re_parse (keyword_pattern kw) = Some (WordB # map Lit kw @ [WordB])"
  by (simp add: keyword_pattern_def re_parse_escape)

lemma match_at_lits:
  "i \<le> length s \<Longrightarrow> match_at (map Lit kw @ rest) s i =
     (i + length kw \<le> length s
      \<and> map lower_code (take (length kw) (drop i s)) = map lower_code kw
      \<and> match_at rest s (i + length kw))"
proof (induction kw arbitrary: i)
  case Nil
  then show ?case by simp
next
  case (Cons c cs)
  show ?case
  proof (cases "i < length s")
    case True
    then have "drop i s = s ! i # drop (Suc i) s" by (simp add: Cons_nth_drop_Suc)
    then show ?thesis using True Cons.IH [of "Suc i"] by auto
  next
    case False
    then show ?thesis using Cons.prems by simp
  qed
qed

lemma re_search_keyword:
  "re_search (keyword_pattern kw) s = Some (occurs_whole_word kw s)"
  by (auto simp add: re_search_def re_parse_keyword_pattern search_atoms_def
      occurs_whole_word_def list_ex_iff match_at_lits simp del: upt_Suc)


text \<open>
  C3.  The matcher treats the keyword as a literal, whole-word and case-insensitive: the
  search with the keyword's pattern always yields a result, and it succeeds exactly when
  the keyword occurs in the sentence between two word boundaries, ignoring case.  The
  keyword \<open>cat\<close> does not match \<open>concatenate the strings.\<close> and matches \<open>The cat sat.\<close>
\<close>

theorem C3_whole_word_literal_match:
  "re_search (keyword_pattern keyword) sentence = Some (occurs_whole_word keyword sentence)
   \<and> re_search (keyword_pattern ''cat'') ''concatenate the strings.'' = Some False
   \<and> re_search (keyword_pattern ''cat'') ''The cat sat.'' = Some True"
proof (intro conjI)
  show "re_search (keyword_pattern keyword) sentence = Some (occurs_whole_word keyword sentence)"
    by (rule re_search_keyword)
  show "re_search (keyword_pattern ''cat'') ''concatenate the strings.'' = Some False"
    by code_simp
  show "re_search (keyword_pattern ''cat'') ''The cat sat.'' = Some True"
    by code_simp
qed

theorem C3_whole_word_literal_match_witness:
  "re_search (keyword_pattern ''a.b'') ''See A.B now'' = Some True
   \<and> re_search (keyword_pattern ''a.b'') ''See axb now'' = Some False"
proof -
  have 1: "occurs_whole_word ''a.b'' ''See A.B now''" by code_simp
  have 2: "\<not> occurs_whole_word ''a.b'' ''See axb now''" by code_simp
  from 1 2 C3_whole_word_literal_match [of "''a.b''" "''See A.B now''"]
    C3_whole_word_literal_match [of "''a.b''" "''See axb now''"]
  show ?thesis by simp
qed

section \<open>Properties of the keyword matcher\<close>

lemma sentence_loop_keyword:
  "sentence_loop (keyword_pattern k) ss (c, f) =
     Some (c + length (hits k ss), fold set_add (map strip (hits k ss)) f)"
  by (induction ss arbitrary: c f) (simp_all add: hits_def re_search_keyword)

lemma keyword_loop_fold:
  "keyword_loop ss ks (occ, f) = Some (fold (count_step ss) ks occ, fold (found_step ss) ks f)"
  by (induction ks arbitrary: occ f)
    (simp_all add: sentence_loop_keyword count_step_def found_step_def)

lemma analyze_fold:
  "analyze_text_for_keywords h text ks =
     Some (fold (count_step (re_split_sentences text)) ks [],
           list_of_set h (fold (found_step (re_split_sentences text)) ks []))"
  by (simp add: analyze_text_for_keywords_def keyword_loop_fold)

lemma map_of_count_steps:
  "map_of (fold (count_step ss) ks occ) k =
     (if k \<in> set ks \<and> 0 < length (hits k ss) then Some (length (hits k ss)) else map_of occ k)"
  by (induction ks arbitrary: occ) (auto simp: count_step_def update_conv')

lemma distinct_count_steps:
  "distinct (map fst occ) \<Longrightarrow> distinct (map fst (fold (count_step ss) ks occ))"
  by (induction ks arbitrary: occ) (simp_all add: count_step_def distinct_update)

lemma set_set_add: "set (set_add x xs) = insert x (set xs)"
  by (auto simp: set_add_def)

lemma distinct_set_add: "distinct xs \<Longrightarrow> distinct (set_add x xs)"
  by (simp add: set_add_def)

lemma set_fold_set_add: "set (fold set_add ys xs) = set ys \<union> set xs"
  by (induction ys arbitrary: xs) (auto simp: set_set_add)

lemma distinct_fold_set_add: "distinct xs \<Longrightarrow> distinct (fold set_add ys xs)"
  by (induction ys arbitrary: xs) (simp_all add: distinct_set_add)

lemma fold_set_add_absorb: "set ys \<subseteq> set xs \<Longrightarrow> fold set_add ys xs = xs"
  by (induction ys arbitrary: xs) (simp_all add: set_add_def)

lemma set_found_steps:
  "set (fold (found_step ss) ks f) = (\<Union>k\<in>set ks. strip ` set (hits k ss)) \<union> set f"
  by (induction ks arbitrary: f) (auto simp: found_step_def set_fold_set_add)

lemma distinct_found_steps:
  "distinct f \<Longrightarrow> distinct (fold (found_step ss) ks f)"
  by (induction ks arbitrary: f) (simp_all add: found_step_def distinct_fold_set_add)

lemma split_from_nonempty: "split_from t s p \<noteq> []"
  by (induction t s p rule: split_from.induct) (subst split_from.simps, simp)


text \<open>
  C2.  The matcher returns for every text and keyword list, and the count it returns for a
  keyword is the number of sentences of the segmented text that the keyword matches, each
  sentence counted once however often the keyword occurs in it; a keyword is a key of the
  returned mapping exactly when it is in the list and that number is positive.
\<close>

theorem C2_count_is_number_of_matching_sentences:
  "\<exists>occurrences sentences.
     analyze_text_for_keywords h text keywords = Some (occurrences, sentences)
     \<and> (\<forall>k. map_of occurrences k =
              (if k \<in> set keywords \<and> 0 < matching_sentences text k
               then Some (matching_sentences text k) else None))"
  by (simp add: analyze_fold map_of_count_steps matching_sentences_def)

theorem C2_count_is_number_of_matching_sentences_witness:
  "analyze_text_for_keywords length ''The cat saw a cat.  A CAT ran. No dog.'' [''cat'', ''cow'']
     = Some ([(''cat'', 2)], [''A CAT ran.'', ''The cat saw a cat.''])
   \<and> matching_sentences ''The cat saw a cat.  A CAT ran. No dog.'' ''cat'' = 2
   \<and> matching_sentences ''The cat saw a cat.  A CAT ran. No dog.'' ''cow'' = 0"
proof -
  have 1: "analyze_text_for_keywords length ''The cat saw a cat.  A CAT ran. No dog.''
             [''cat'', ''cow''] = Some ([(''cat'', 2)], [''A CAT ran.'', ''The cat saw a cat.''])"
    by code_simp
  from C2_count_is_number_of_matching_sentences
         [of length "''The cat saw a cat.  A CAT ran. No dog.''" "[''cat'', ''cow'']"]
  have 2: "\<forall>k. map_of [(''cat'', 2::nat)] k =
              (if k \<in> set [''cat'', ''cow'']
                    \<and> 0 < matching_sentences ''The cat saw a cat.  A CAT ran. No dog.'' k
               then Some (matching_sentences ''The cat saw a cat.  A CAT ran. No dog.'' k)
               else None)"
    unfolding 1 by simp
  from 2 [rule_format, of "''cat''"] 2 [rule_format, of "''cow''"] 1
  show ?thesis by (simp split: if_splits)
qed


lemma occurrences_entry:
  assumes "(k, n) \<in> set (fold (count_step ss) ks [])"
  shows "k \<in> set ks \<and> 1 \<le> n \<and> n \<le> length ss"
proof -
  have "distinct (map fst (fold (count_step ss) ks []))"
    by (rule distinct_count_steps) simp
  with assms have "map_of (fold (count_step ss) ks []) k = Some n" by simp
  then have "k \<in> set ks \<and> 0 < length (hits k ss) \<and> n = length (hits k ss)"
    by (simp add: map_of_count_steps split: if_splits)
  moreover have "length (hits k ss) \<le> length ss" by (simp add: hits_def)
  ultimately show ?thesis by (simp add: Suc_le_eq del: length_greater_0_conv)
qed


text \<open>
  C10.  The returned mapping is well-formed: every key is one of the keywords given, and
  every count is at least 1 and at most the number of sentences of the text.
\<close>

theorem C10_counts_well_formed:
  "\<exists>occurrences sentences.
     analyze_text_for_keywords h text keywords = Some (occurrences, sentences)
     \<and> (\<forall>(k, n) \<in> set occurrences.
           k \<in> set keywords \<and> 1 \<le> n \<and> n \<le> length (re_split_sentences text))"
  using occurrences_entry [of _ _ "re_split_sentences text" "keywords"]
  by (auto simp: analyze_fold)

theorem C10_counts_well_formed_witness:
  "analyze_text_for_keywords length ''A cat. A dog. A cat and a dog.'' [''dog'', ''cat'', ''emu'']
     = Some ([(''dog'', 2), (''cat'', 2)], [''A dog.'', ''A cat.'', ''A cat and a dog.''])
   \<and> length (re_split_sentences ''A cat. A dog. A cat and a dog.'') = 3"
proof -
  have 1: "analyze_text_for_keywords length ''A cat. A dog. A cat and a dog.''
             [''dog'', ''cat'', ''emu'']
           = Some ([(''dog'', 2), (''cat'', 2)], [''A dog.'', ''A cat.'', ''A cat and a dog.''])"
    by code_simp
  have 2: "length (re_split_sentences ''A cat. A dog. A cat and a dog.'') = 3"
    by code_simp
  from C10_counts_well_formed
         [of length "''A cat. A dog. A cat and a dog.''" "[''dog'', ''cat'', ''emu'']"] 1 2
  show ?thesis by simp
qed

lemma count_step_again:
  assumes "k \<in> set ks"
  shows "count_step ss k (fold (count_step ss) ks occ) = fold (count_step ss) ks occ"
proof (cases "0 < length (hits k ss)")
  case True
  with assms have "map_of (fold (count_step ss) ks occ) k = Some (length (hits k ss))"
    by (simp add: map_of_count_steps)
  then show ?thesis using True by (simp add: count_step_def update_triv)
next
  case False
  then show ?thesis by (simp add: count_step_def)
qed

lemma found_step_again:
  assumes "k \<in> set ks"
  shows "found_step ss k (fold (found_step ss) ks f) = fold (found_step ss) ks f"
proof -
  from assms have "set (map strip (hits k ss)) \<subseteq> set (fold (found_step ss) ks f)"
    by (auto simp: set_found_steps)
  then show ?thesis unfolding found_step_def by (rule fold_set_add_absorb)
qed


text \<open>
  C7, as the code has it.  The counts are a mapping and the matched sentences a set, so a
  keyword that occurs a second time in the list changes nothing: the result is that of the
  list without the second occurrence.
\<close>

theorem C7_duplicate_keyword_changes_nothing:
  assumes "k \<in> set ks1"
  shows "analyze_text_for_keywords h text (ks1 @ k # ks2)
         = analyze_text_for_keywords h text (ks1 @ ks2)"
  using assms by (simp add: analyze_fold count_step_again found_step_again)

theorem C7_duplicate_keyword_changes_nothing_witness:
  "analyze_text_for_keywords length ''A cat. A dog.'' [''cat'', ''dog'', ''cat'']
   = Some ([(''cat'', 1), (''dog'', 1)], [''A cat.'', ''A dog.''])"
proof -
  have 1: "analyze_text_for_keywords length ''A cat. A dog.'' [''cat'', ''dog'']
           = Some ([(''cat'', 1), (''dog'', 1)], [''A cat.'', ''A dog.''])"
    by code_simp
  have 2: "''cat'' \<in> set [''cat'', ''dog'']" by simp
  from C7_duplicate_keyword_changes_nothing [OF 2, of length "''A cat. A dog.''" "[]"] 1
  show ?thesis by simp
qed


text \<open>
  C7 as stated fails: with the keyword \<open>cat\<close> given twice its count is 1, the count it
  has when given once, not 2.
\<close>

theorem C7_duplicates_double_count_counterexample:
  "analyze_text_for_keywords length ''The cat sat.'' [''cat'', ''cat'']
     = Some ([(''cat'', 1)], [''The cat sat.''])
   \<and> analyze_text_for_keywords length ''The cat sat.'' [''cat'']
     = Some ([(''cat'', 1)], [''The cat sat.''])"
  by code_simp


text \<open>
  C9.  The matcher is deterministic.  Its only input besides the text and the keywords is
  the hash that orders the list made of the sentence set: under any two hashes the counts
  are the same, and the two sentence lists hold the same sentences, each once.  This holds
  for every keyword list, the non-empty ones among them.
\<close>

theorem C9_matcher_deterministic:
  "\<exists>occurrences sentences1 sentences2.
     analyze_text_for_keywords h1 text keywords = Some (occurrences, sentences1)
     \<and> analyze_text_for_keywords h2 text keywords = Some (occurrences, sentences2)
     \<and> set sentences1 = set sentences2 \<and> distinct sentences1 \<and> distinct sentences2"
  by (simp add: analyze_fold list_of_set_def distinct_found_steps)

theorem C9_matcher_deterministic_witness:
  "analyze_text_for_keywords length ''A cat sat. Cats nap. The cat.'' [''cat'']
     = Some ([(''cat'', 2)], [''The cat.'', ''A cat sat.''])
   \<and> (\<exists>sentences2.
         analyze_text_for_keywords (\<lambda>s. 0) ''A cat sat. Cats nap. The cat.'' [''cat'']
           = Some ([(''cat'', 2)], sentences2)
         \<and> set sentences2 = {''The cat.'', ''A cat sat.''})"
proof -
  have 1: "analyze_text_for_keywords length ''A cat sat. Cats nap. The cat.'' [''cat'']
           = Some ([(''cat'', 2)], [''The cat.'', ''A cat sat.''])"
    by code_simp
  from C9_matcher_deterministic
         [of length "''A cat sat. Cats nap. The cat.''" "[''cat'']" "\<lambda>s. 0"]
  obtain s2 where
    "analyze_text_for_keywords (\<lambda>s. 0) ''A cat sat. Cats nap. The cat.'' [''cat'']
       = Some ([(''cat'', 2)], s2)"
    and "set [''The cat.'', ''A cat sat.''] = set s2"
    unfolding 1 by blast
  then show ?thesis using 1 by simp
qed

section \<open>Properties of the pipeline\<close>

lemma range_MAX_RETRIES: "[0..<MAX_RETRIES] = [0, 1]"
  by (simp add: MAX_RETRIES_def upt_conv_Cons)

lemma read_pdf_content_two_failures:
  assumes "read_attempt env url tr = (Inl e1, tr1)"
    and "read_attempt env url (tr1 @ [Sleep RETRY_DELAY]) = (Inl e2, tr2)"
  shows "read_pdf_content env url tr = (None, tr2 @ [LogError url (failure_message e2)])"
  using assms unfolding read_pdf_content_def range_MAX_RETRIES
  by (simp add: MAX_RETRIES_def)

lemma read_attempt_fetch_fails:
  assumes "isl (urlopen env tr url)"
  shows "read_attempt env url tr = (Inl (projl (urlopen env tr url)), tr @ [Urlopen url])"
  using assms by (cases "urlopen env tr url") (simp_all add: read_attempt_def)

lemma read_attempt_extraction_fails:
  assumes "\<not> isl (urlopen env tr url)"
    and "isl (extract_text env (projr (urlopen env tr url)))"
  shows "read_attempt env url tr
         = (Inl (projl (extract_text env (projr (urlopen env tr url)))),
            tr @ [Urlopen url, FitzOpen (projr (urlopen env tr url))])"
  using assms
  by (cases "urlopen env tr url"; cases "extract_text env (projr (urlopen env tr url))")
     (simp_all add: read_attempt_def)

lemma process_url_unread:
  assumes "read_pdf_content env url (trace st) = (None, tr)"
  shows "process_url env keywords names index url st = Inr (st\<lparr>trace := tr @ [Sleep 1]\<rparr>)"
  using assms by (simp add: process_url_def Let_def)


lemma read_pdf_content_fetch_fails:
  assumes "\<forall>t. isl (urlopen env t url)"
  shows "read_pdf_content env url tr
         = (None, tr @ [Urlopen url, Sleep RETRY_DELAY, Urlopen url,
              LogError url
                (failure_message
                   (projl (urlopen env (tr @ [Urlopen url, Sleep RETRY_DELAY]) url)))])"
proof -
  have 1: "read_attempt env url tr = (Inl (projl (urlopen env tr url)), tr @ [Urlopen url])"
    using assms by (intro read_attempt_fetch_fails) simp
  have 2: "read_attempt env url ((tr @ [Urlopen url]) @ [Sleep RETRY_DELAY])
           = (Inl (projl (urlopen env ((tr @ [Urlopen url]) @ [Sleep RETRY_DELAY]) url)),
              ((tr @ [Urlopen url]) @ [Sleep RETRY_DELAY]) @ [Urlopen url])"
    using assms by (intro read_attempt_fetch_fails) simp
  from read_pdf_content_two_failures [OF 1 2] show ?thesis by simp
qed

lemma read_pdf_content_extraction_fails:
  assumes "\<forall>t. \<not> isl (urlopen env t url)"
    and "\<forall>t. isl (extract_text env (projr (urlopen env t url)))"
  shows "read_pdf_content env url tr
         = (None, tr @ [Urlopen url, FitzOpen (projr (urlopen env tr url)), Sleep RETRY_DELAY,
              Urlopen url,
              FitzOpen (projr (urlopen env
                 (tr @ [Urlopen url, FitzOpen (projr (urlopen env tr url)), Sleep RETRY_DELAY])
                 url)),
              LogError url
                (failure_message
                   (projl (extract_text env (projr (urlopen env
                      (tr @ [Urlopen url, FitzOpen (projr (urlopen env tr url)),
                             Sleep RETRY_DELAY]) url)))))])"
proof -
  let ?c1 = "projr (urlopen env tr url)"
  let ?t1 = "(tr @ [Urlopen url, FitzOpen ?c1]) @ [Sleep RETRY_DELAY]"
  have 1: "read_attempt env url tr
           = (Inl (projl (extract_text env ?c1)), tr @ [Urlopen url, FitzOpen ?c1])"
    using assms by (intro read_attempt_extraction_fails) simp_all
  have 2: "read_attempt env url ?t1
           = (Inl (projl (extract_text env (projr (urlopen env ?t1 url)))),
              ?t1 @ [Urlopen url, FitzOpen (projr (urlopen env ?t1 url))])"
    using assms by (intro read_attempt_extraction_fails) simp_all
  from read_pdf_content_two_failures [OF 1 2] show ?thesis by simp
qed


text \<open>
  C6.  When the request for a URL fails on every attempt, the fetcher makes exactly
  \<open>MAX_RETRIES\<close> (two) requests, pauses for \<open>RETRY_DELAY\<close> after the first and not
  after the last, writes exactly one entry to the error log, after the last attempt, and
  returns no text; the pipeline adds no row and no sentence for the URL, pauses and goes on
  with the URLs that follow.
\<close>

theorem C6_fetch_fails_on_every_attempt:
  assumes "\<forall>t. isl (urlopen env t url)"
  shows "\<exists>e. read_pdf_content env url (trace st)
               = (None, trace st @ [Urlopen url, Sleep RETRY_DELAY, Urlopen url,
                                    LogError url (failure_message e)])
             \<and> length (filter is_request [Urlopen url, Sleep RETRY_DELAY, Urlopen url,
                                    LogError url (failure_message e)]) = MAX_RETRIES
             \<and> length (filter is_log_entry [Urlopen url, Sleep RETRY_DELAY, Urlopen url,
                                    LogError url (failure_message e)]) = 1
             \<and> process_loop env keywords names ((index, url) # rest) st
               = process_loop env keywords names rest
                   (st\<lparr>trace := trace st @ [Urlopen url, Sleep RETRY_DELAY, Urlopen url,
                                              LogError url (failure_message e), Sleep 1]\<rparr>)"
proof -
  let ?e = "projl (urlopen env (trace st @ [Urlopen url, Sleep RETRY_DELAY]) url)"
  let ?new = "[Urlopen url, Sleep RETRY_DELAY, Urlopen url, LogError url (failure_message ?e)]"
  have r: "read_pdf_content env url (trace st) = (None, trace st @ ?new)"
    using assms by (rule read_pdf_content_fetch_fails)
  have "process_url env keywords names index url st
        = Inr (st\<lparr>trace := (trace st @ ?new) @ [Sleep 1]\<rparr>)"
    using r by (rule process_url_unread)
  then have "process_loop env keywords names ((index, url) # rest) st
        = process_loop env keywords names rest (st\<lparr>trace := trace st @ ?new @ [Sleep 1]\<rparr>)"
    by simp
  moreover have "length (filter is_request ?new) = MAX_RETRIES"
    by (simp add: MAX_RETRIES_def)
  ultimately show ?thesis using r by (intro exI [of _ ?e]) simp
qed

theorem C6_fetch_fails_on_every_attempt_witness:
  "(\<forall>t. isl (urlopen example_env t ''http://x/bad.pdf''))
   \<and> process_filings example_env (Some [''http://x/bad.pdf'', ''http://x/a.pdf''])
        [''cat''] None []
     = Inr ([[(''URL'', Str ''http://x/a.pdf''), (''Name'', Str ''a.pdf''), (''cat'', Num 1)]],
            [''The cat sat.''],
            [Urlopen ''http://x/bad.pdf'', Sleep 5, Urlopen ''http://x/bad.pdf'',
             LogError ''http://x/bad.pdf'' ''Failed to read PDF after 2 attempts: timed out'',
             Sleep 1,
             Urlopen ''http://x/a.pdf'', FitzOpen ''http://x/a.pdf'', Sleep 1])
   \<and> (\<exists>e. read_pdf_content example_env ''http://x/bad.pdf'' []
             = (None, [Urlopen ''http://x/bad.pdf'', Sleep RETRY_DELAY,
                       Urlopen ''http://x/bad.pdf'',
                       LogError ''http://x/bad.pdf'' (failure_message e)]))"
proof -
  have h: "\<forall>t. isl (urlopen example_env t ''http://x/bad.pdf'')"
    by (simp add: example_env_def)
  have v: "process_filings example_env (Some [''http://x/bad.pdf'', ''http://x/a.pdf''])
        [''cat''] None []
     = Inr ([[(''URL'', Str ''http://x/a.pdf''), (''Name'', Str ''a.pdf''), (''cat'', Num 1)]],
            [''The cat sat.''],
            [Urlopen ''http://x/bad.pdf'', Sleep 5, Urlopen ''http://x/bad.pdf'',
             LogError ''http://x/bad.pdf'' ''Failed to read PDF after 2 attempts: timed out'',
             Sleep 1,
             Urlopen ''http://x/a.pdf'', FitzOpen ''http://x/a.pdf'', Sleep 1])"
    by code_simp
  from C6_fetch_fails_on_every_attempt
         [OF h, of "\<lparr>results = [], all_extracted_sentences = [], trace = []\<rparr>"
            "[]" None 0 "[]"]
  have "\<exists>e. read_pdf_content example_env ''http://x/bad.pdf'' []
             = (None, [Urlopen ''http://x/bad.pdf'', Sleep RETRY_DELAY,
                       Urlopen ''http://x/bad.pdf'',
                       LogError ''http://x/bad.pdf'' (failure_message e)])"
    by auto
  with h v show ?thesis by blast
qed


text \<open>
  C5, as the code has it.  An extraction failure is caught by the same handler as a failed
  request: when for a URL every request gives bytes and every extraction raises, the
  fetcher requests and extracts \<open>MAX_RETRIES\<close> (two) times, with the pause in between,
  writes one entry to the error log and returns no text, and the pipeline skips the
  document.
\<close>

theorem C5_extraction_failure_is_retried:
  assumes "\<forall>t. \<not> isl (urlopen env t url)"
    and "\<forall>t. isl (extract_text env (projr (urlopen env t url)))"
  shows "\<exists>c1 c2 e.
           read_pdf_content env url (trace st)
             = (None, trace st @ [Urlopen url, FitzOpen c1, Sleep RETRY_DELAY,
                                  Urlopen url, FitzOpen c2, LogError url (failure_message e)])
           \<and> length (filter is_extraction
                        [Urlopen url, FitzOpen c1, Sleep RETRY_DELAY,
                         Urlopen url, FitzOpen c2, LogError url (failure_message e)])
               = MAX_RETRIES
           \<and> process_url env keywords names index url st
               = Inr (st\<lparr>trace := trace st @ [Urlopen url, FitzOpen c1, Sleep RETRY_DELAY,
                         Urlopen url, FitzOpen c2, LogError url (failure_message e),
                         Sleep 1]\<rparr>)"
proof -
  let ?c1 = "projr (urlopen env (trace st) url)"
  let ?t1 = "trace st @ [Urlopen url, FitzOpen ?c1, Sleep RETRY_DELAY]"
  let ?c2 = "projr (urlopen env ?t1 url)"
  let ?e = "projl (extract_text env ?c2)"
  let ?new = "[Urlopen url, FitzOpen ?c1, Sleep RETRY_DELAY, Urlopen url, FitzOpen ?c2,
               LogError url (failure_message ?e)]"
  have r: "read_pdf_content env url (trace st) = (None, trace st @ ?new)"
    using assms by (rule read_pdf_content_extraction_fails)
  have "process_url env keywords names index url st
        = Inr (st\<lparr>trace := (trace st @ ?new) @ [Sleep 1]\<rparr>)"
    using r by (rule process_url_unread)
  moreover have "length (filter is_extraction ?new) = MAX_RETRIES"
    by (simp add: MAX_RETRIES_def)
  ultimately show ?thesis
    using r by (intro exI [of _ ?c1] exI [of _ ?c2] exI [of _ ?e]) simp
qed

theorem C5_extraction_failure_is_retried_witness:
  "(\<forall>t. \<not> isl (urlopen example_env t ''http://x/corrupt.pdf''))
   \<and> (\<forall>t. isl (extract_text example_env
               (projr (urlopen example_env t ''http://x/corrupt.pdf''))))
   \<and> (\<exists>c1 c2 e.
         read_pdf_content example_env ''http://x/corrupt.pdf'' []
           = (None, [Urlopen ''http://x/corrupt.pdf'', FitzOpen c1, Sleep RETRY_DELAY,
                     Urlopen ''http://x/corrupt.pdf'', FitzOpen c2,
                     LogError ''http://x/corrupt.pdf'' (failure_message e)]))"
proof -
  have h1: "\<forall>t. \<not> isl (urlopen example_env t ''http://x/corrupt.pdf'')"
    by (simp add: example_env_def)
  have h2: "\<forall>t. isl (extract_text example_env
               (projr (urlopen example_env t ''http://x/corrupt.pdf'')))"
    by (simp add: example_env_def extract_text_def)
  from C5_extraction_failure_is_retried
         [OF h1 h2, of "\<lparr>results = [], all_extracted_sentences = [], trace = []\<rparr>"
            "[]" None 0]
  have "\<exists>c1 c2 e.
         read_pdf_content example_env ''http://x/corrupt.pdf'' []
           = (None, [Urlopen ''http://x/corrupt.pdf'', FitzOpen c1, Sleep RETRY_DELAY,
                     Urlopen ''http://x/corrupt.pdf'', FitzOpen c2,
                     LogError ''http://x/corrupt.pdf'' (failure_message e)])"
    by auto
  with h1 h2 show ?thesis by blast
qed


text \<open>
  C5 as stated fails: for a document whose bytes are fetched and whose extraction raises,
  the pipeline makes two requests and two extraction attempts, not one.
\<close>

theorem C5_single_extraction_attempt_counterexample:
  "urlopen example_env [] ''http://x/corrupt.pdf'' = Inr ''http://x/corrupt.pdf''
   \<and> extract_text example_env ''http://x/corrupt.pdf'' = Inl ''no PDF''
   \<and> read_pdf_content example_env ''http://x/corrupt.pdf'' []
     = (None, [Urlopen ''http://x/corrupt.pdf'', FitzOpen ''http://x/corrupt.pdf'', Sleep 5,
               Urlopen ''http://x/corrupt.pdf'', FitzOpen ''http://x/corrupt.pdf'',
               LogError ''http://x/corrupt.pdf''
                 ''Failed to read PDF after 2 attempts: no PDF''])
   \<and> length (filter is_extraction
               (snd (read_pdf_content example_env ''http://x/corrupt.pdf'' []))) = 2
   \<and> length (filter is_request
               (snd (read_pdf_content example_env ''http://x/corrupt.pdf'' []))) = 2"
  by code_simp


text \<open>
  C1 does not hold of the code.  A document that is fetched and extracted without an
  error and has no text is dropped by the test \<open>if text:\<close>, which is meant for the
  \<open>None\<close> of a failure: the run has no row for its URL and no entry in the error log.
\<close>

theorem C1_empty_text_is_dropped:
  "urlopen example_env [] ''http://x/scan.pdf'' = Inr ''http://x/scan.pdf''
   \<and> extract_text example_env ''http://x/scan.pdf'' = Inr []
   \<and> process_filings example_env (Some [''http://x/scan.pdf'']) [''cat''] None []
     = Inr ([], [], [Urlopen ''http://x/scan.pdf'', FitzOpen ''http://x/scan.pdf'', Sleep 1])"
  by code_simp

lemma process_url_total:
  "\<exists>st'. process_url env keywords names index url st = Inr st'
         \<and> (distinct (all_extracted_sentences st) \<longrightarrow> distinct (all_extracted_sentences st'))"
proof (cases "read_pdf_content env url (trace st)")
  case (Pair text' tr)
  show ?thesis
  proof (cases text')
    case None
    with Pair show ?thesis by (simp add: process_url_def Let_def)
  next
    case (Some t)
    with Pair show ?thesis
      by (cases "t = []") (simp_all add: process_url_def Let_def analyze_fold distinct_fold_set_add)
  qed
qed

lemma process_loop_total:
  "distinct (all_extracted_sentences st) \<Longrightarrow>
   \<exists>st'. process_loop env keywords names us st = Inr st'
         \<and> distinct (all_extracted_sentences st')"
proof (induction us arbitrary: st)
  case Nil
  then show ?case by simp
next
  case (Cons iu us)
  obtain index url where iu: "iu = (index, url)" by (cases iu)
  from process_url_total [of env "keywords" names index url st] Cons.prems
  obtain st1 where 1: "process_url env keywords names index url st = Inr st1"
    and 2: "distinct (all_extracted_sentences st1)" by blast
  from Cons.IH [OF 2] 1 iu show ?case by simp
qed


text \<open>
  C8.  Every run over a URL file that can be opened returns, and the run-wide sentence list
  it returns holds no sentence twice, whatever the documents contain.
\<close>

theorem C8_run_wide_sentences_distinct:
  "\<exists>rows sentences tr'.
     process_filings env (Some file_lines) keywords names tr = Inr (rows, sentences, tr')
     \<and> distinct sentences"
proof -
  have "distinct (all_extracted_sentences
          \<lparr>results = [], all_extracted_sentences = [], trace = tr\<rparr>)" by simp
  from process_loop_total [OF this, of env "keywords" names "enumerate 0 (read_urls file_lines)"]
  obtain st' where "process_loop env keywords names (enumerate 0 (read_urls file_lines))
                      \<lparr>results = [], all_extracted_sentences = [], trace = tr\<rparr> = Inr st'"
    and "distinct (all_extracted_sentences st')" by blast
  then show ?thesis by (simp add: process_filings_def list_of_set_def)
qed

theorem C8_run_wide_sentences_distinct_witness:
  "process_filings example_env (Some [''http://x/a.pdf'', ''http://x/b.pdf''])
     [''cat'', ''dog''] (Some [''ACME'']) []
   = Inr ([[(''URL'', Str ''http://x/a.pdf''), (''Name'', Str ''ACME''),
            (''cat'', Num 1), (''dog'', Num 1)],
           [(''URL'', Str ''http://x/b.pdf''), (''Name'', Str ''b.pdf''),
            (''cat'', Num 1), (''dog'', Num 1)]],
          [''A dog ran.'', ''The cat sat.''],
          [Urlopen ''http://x/a.pdf'', FitzOpen ''http://x/a.pdf'', Sleep 1,
           Urlopen ''http://x/b.pdf'', FitzOpen ''http://x/b.pdf'', Sleep 1])
   \<and> distinct [''A dog ran.'', ''The cat sat.'']"
proof -
  have v: "process_filings example_env (Some [''http://x/a.pdf'', ''http://x/b.pdf''])
     [''cat'', ''dog''] (Some [''ACME'']) []
   = Inr ([[(''URL'', Str ''http://x/a.pdf''), (''Name'', Str ''ACME''),
            (''cat'', Num 1), (''dog'', Num 1)],
           [(''URL'', Str ''http://x/b.pdf''), (''Name'', Str ''b.pdf''),
            (''cat'', Num 1), (''dog'', Num 1)]],
          [''A dog ran.'', ''The cat sat.''],
          [Urlopen ''http://x/a.pdf'', FitzOpen ''http://x/a.pdf'', Sleep 1,
           Urlopen ''http://x/b.pdf'', FitzOpen ''http://x/b.pdf'', Sleep 1])"
    by code_simp
  from C8_run_wide_sentences_distinct
         [of example_env "[''http://x/a.pdf'', ''http://x/b.pdf'']" "[''cat'', ''dog'']"
            "Some [''ACME'']" "[]"]
  show ?thesis unfolding v by simp
qed


end
